theory Spec2Isabelle
  imports Complex_Main
begin

section \<open>The mind map component: data model\<close>

text \<open>
  The source tree node of \<^verbatim>\<open>types.ts\<close>: an optional identifier, a label and an
  optional ordered list of children.
\<close>

datatype MindMapNode =
  MindMapNode (node_id: "string option") (node_label: string)
              (node_children: "MindMapNode list option")

text \<open>Layout constants of the component.\<close>

definition nodeWidth :: real where "nodeWidth = 160"
definition nodeHeight :: real where "nodeHeight = 50"
definition verticalGap :: real where "verticalGap = 30"
definition horizontalGap :: real where "horizontalGap = 200"

subsection \<open>Identifier assignment\<close>

text \<open>
  The template literal \<^verbatim>\<open>`${path}-${i}`\<close> renders the child index in decimal.
\<close>

definition digitChar :: "nat \<Rightarrow> char" where
  "digitChar d = ''0123456789'' ! d"

fun showNat :: "nat \<Rightarrow> string" where
  "showNat n = (if n < 10 then [digitChar n] else showNat (n div 10) @ [digitChar (n mod 10)])"

declare showNat.simps [simp del]

text \<open>Reading a decimal numeral back; it inverts \<open>showNat\<close>.\<close>

definition digitVal :: "char \<Rightarrow> nat" where
  "digitVal c = of_char c - 48"

definition readNat :: "string \<Rightarrow> nat" where
  "readNat cs = foldl (\<lambda>acc c. 10 * acc + digitVal c) 0 cs"

text \<open>
  \<^verbatim>\<open>addId\<close> replaces the identifier by the path and maps itself over the children
  with their indices; an absent children list stays absent.  The index that
  \<^verbatim>\<open>map((c, i) => ...)\<close> passes along is the counter of \<open>addIdChildren\<close>.
\<close>

fun addId :: "MindMapNode \<Rightarrow> string \<Rightarrow> MindMapNode"
  and addIdChildren :: "MindMapNode list \<Rightarrow> string \<Rightarrow> nat \<Rightarrow> MindMapNode list" where
  "addId (MindMapNode i l cs) path =
     MindMapNode (Some path) l
       (case cs of None \<Rightarrow> None | Some ks \<Rightarrow> Some (addIdChildren ks path 0))"
| "addIdChildren [] path k = []"
| "addIdChildren (c # ks) path k =
     addId c (path @ ''-'' @ showNat k) # addIdChildren ks path (Suc k)"

definition dataWithIds :: "MindMapNode \<Rightarrow> MindMapNode" where
  "dataWithIds data = addId data ''root''"

subsection \<open>Layout\<close>

text \<open>
  The object that \<^verbatim>\<open>calculatePositions\<close> returns: a positioned node with the
  positioned children it pushed into \<^verbatim>\<open>childrenNodes\<close>.
\<close>

datatype PosNode =
  PosNode (pos_id: "string option") (pos_label: string) (pos_x: real) (pos_y: real)
          (pos_hasChildren: bool) (pos_isCollapsed: bool) (childrenNodes: "PosNode list")

record LayoutNode =
  ln_id :: "string option"
  ln_label :: string
  ln_x :: real
  ln_y :: real
  ln_px :: "real option"
  ln_py :: "real option"
  ln_hasChildren :: bool
  ln_isCollapsed :: bool

text \<open>\<^verbatim>\<open>collapsedIds.has(id)\<close>; an undefined identifier is in no set of strings.\<close>

definition has :: "string set \<Rightarrow> string option \<Rightarrow> bool" where
  "has collapsedIds i = (case i of None \<Rightarrow> False | Some s \<Rightarrow> s \<in> collapsedIds)"

text \<open>
  \<^verbatim>\<open>calculatePositions\<close> threads the shared cursor \<^verbatim>\<open>yOffset.val\<close>: it takes the
  cursor and returns the positioned node with the cursor after it.
  \<open>positionChildren\<close> is the \<^verbatim>\<open>forEach\<close> over the children.  In the
  else-branch \<^verbatim>\<open>hasChildren\<close> holds, so the children list is present there; the
  case of an absent list is never reached and repeats the leaf step.
\<close>

fun calculatePositions :: "string set \<Rightarrow> MindMapNode \<Rightarrow> nat \<Rightarrow> real \<Rightarrow> PosNode \<times> real"
  and positionChildren :: "string set \<Rightarrow> MindMapNode list \<Rightarrow> nat \<Rightarrow> real \<Rightarrow> PosNode list \<times> real" where
  "calculatePositions collapsedIds (MindMapNode i l cs) depth yOffset =
     (let isCollapsed = has collapsedIds i;
          hasChildren = (case cs of None \<Rightarrow> False | Some ks \<Rightarrow> length ks > 0)
      in if \<not> hasChildren \<or> isCollapsed
         then (PosNode i l (real depth * horizontalGap) yOffset hasChildren isCollapsed [],
               yOffset + (nodeHeight + verticalGap))
         else (case cs of
                 None \<Rightarrow> (PosNode i l (real depth * horizontalGap) yOffset hasChildren isCollapsed [],
                          yOffset + (nodeHeight + verticalGap))
               | Some ks \<Rightarrow>
                  (let startY = yOffset;
                       (kids, yOffset') = positionChildren collapsedIds ks (depth + 1) yOffset;
                       endY = yOffset' - (nodeHeight + verticalGap)
                   in (PosNode i l (real depth * horizontalGap) ((startY + endY) / 2)
                                hasChildren isCollapsed kids,
                       yOffset'))))"
| "positionChildren collapsedIds [] depth yOffset = ([], yOffset)"
| "positionChildren collapsedIds (c # ks) depth yOffset =
     (let (p, yOffset') = calculatePositions collapsedIds c depth yOffset;
          (ps, yOffset'') = positionChildren collapsedIds ks depth yOffset'
      in (p # ps, yOffset''))"

text \<open>
  \<^verbatim>\<open>flatten\<close> pushes the node and then, unless it is collapsed, its positioned
  children with the anchor of this node; the pushes are the returned list.
\<close>

fun flatten :: "PosNode \<Rightarrow> real option \<Rightarrow> real option \<Rightarrow> LayoutNode list" where
  "flatten (PosNode i l x y hc col kids) px py =
     \<lparr>ln_id = i, ln_label = l, ln_x = x, ln_y = y, ln_px = px, ln_py = py,
      ln_hasChildren = hc, ln_isCollapsed = col\<rparr>
     # (if \<not> col
        then concat (map (\<lambda>c. flatten c (Some (x + nodeWidth)) (Some (y + nodeHeight / 2))) kids)
        else [])"

definition tree :: "MindMapNode \<Rightarrow> string set \<Rightarrow> PosNode" where
  "tree dataWithIds' collapsedIds = fst (calculatePositions collapsedIds dataWithIds' 0 0)"

definition nodes :: "MindMapNode \<Rightarrow> string set \<Rightarrow> LayoutNode list" where
  "nodes dataWithIds' collapsedIds = flatten (tree dataWithIds' collapsedIds) None None"

subsection \<open>Collapse state\<close>

definition toggleNode :: "string \<Rightarrow> string set \<Rightarrow> string set" where
  "toggleNode i prev = (if i \<in> prev then prev - {i} else insert i prev)"

subsection \<open>Positions, visibility and shape of a tree\<close>

text \<open>The children of a node, an absent list counting as no children.\<close>

definition kids :: "MindMapNode \<Rightarrow> MindMapNode list" where
  "kids t = (case node_children t of None \<Rightarrow> [] | Some ks \<Rightarrow> ks)"

text \<open>All nodes of a tree in pre-order.\<close>

fun allNodes :: "MindMapNode \<Rightarrow> MindMapNode list" where
  "allNodes (MindMapNode i l cs) =
     MindMapNode i l cs # (case cs of None \<Rightarrow> [] | Some ks \<Rightarrow> concat (map allNodes ks))"

text \<open>
  A position is the list of child indices from the root; \<open>nodeAt\<close> follows it.
  \<open>pathStr\<close> is the suffix that \<^verbatim>\<open>addId\<close> appends along a position.
\<close>

primrec nodeAt :: "nat list \<Rightarrow> MindMapNode \<Rightarrow> MindMapNode option" where
  "nodeAt [] t = Some t"
| "nodeAt (k # p) t = (if k < length (kids t) then nodeAt p (kids t ! k) else None)"

definition pathStr :: "nat list \<Rightarrow> string" where
  "pathStr p = concat (map (\<lambda>k. ''-'' @ showNat k) p)"

text \<open>
  The visible nodes of a tree in pre-order: a node is visible when none of its
  ancestors is collapsed.  \<open>visibleAt\<close> follows a position through nodes that are not
  collapsed, so it finds visible nodes only.
\<close>

fun visible :: "string set \<Rightarrow> MindMapNode \<Rightarrow> MindMapNode list" where
  "visible collapsedIds (MindMapNode i l cs) =
     MindMapNode i l cs
     # (if has collapsedIds i then []
        else (case cs of None \<Rightarrow> [] | Some ks \<Rightarrow> concat (map (visible collapsedIds) ks)))"

primrec visibleAt :: "string set \<Rightarrow> nat list \<Rightarrow> MindMapNode \<Rightarrow> MindMapNode option" where
  "visibleAt collapsedIds [] t = Some t"
| "visibleAt collapsedIds (k # p) t =
     (if has collapsedIds (node_id t) then None
      else if k < length (kids t) then visibleAt collapsedIds p (kids t ! k) else None)"

text \<open>The shape of a tree: its branching structure without identifiers and labels.\<close>

datatype Shape = Shape "Shape list"

fun shapeOf :: "MindMapNode \<Rightarrow> Shape" where
  "shapeOf (MindMapNode i l cs) = Shape (case cs of None \<Rightarrow> [] | Some ks \<Rightarrow> map shapeOf ks)"

text \<open>
  The positioned nodes of a positioned tree in pre-order, and the vertical position of
  the leaf reached by descending through first children, or through last children.
\<close>

fun pnodes :: "PosNode \<Rightarrow> PosNode list" where
  "pnodes (PosNode i l x y hc col ps) = PosNode i l x y hc col ps # concat (map pnodes ps)"

fun firstLeafY :: "PosNode \<Rightarrow> real" where
  "firstLeafY (PosNode i l x y hc col ps) = (case ps of [] \<Rightarrow> y | c # _ \<Rightarrow> firstLeafY c)"

function lastLeafY :: "PosNode \<Rightarrow> real" where
  "lastLeafY (PosNode i l x y hc col ps) = (if ps = [] then y else lastLeafY (last ps))"
  by pat_completeness auto
termination
proof (relation "measure size")
  fix i l x y hc col and ps :: "PosNode list"
  assume "ps \<noteq> []"
  then have "last ps \<in> set ps" by simp
  then have "size (last ps) \<le> size_list size ps"
    by (simp add: size_list_estimation')
  then show "(last ps, PosNode i l x y hc col ps) \<in> measure size" by simp
qed simp

text \<open>\<^verbatim>\<open>hasChildren\<close> as a function of the children field.\<close>

definition hasKids :: "MindMapNode list option \<Rightarrow> bool" where
  "hasKids cs = (case cs of None \<Rightarrow> False | Some ks \<Rightarrow> 0 < length ks)"

text \<open>
  A positioned node is centred when, having positioned children, it sits midway between
  the first and the last leaf below it; positioned siblings are separated when each
  lies at least one step below the one before.
\<close>

definition centred :: "PosNode \<Rightarrow> bool" where
  "centred q = (childrenNodes q \<noteq> [] \<longrightarrow> pos_y q = (firstLeafY q + lastLeafY q) / 2)"

definition separated :: "PosNode list \<Rightarrow> bool" where
  "separated ps = sorted_wrt (\<lambda>a b. pos_y a + (nodeHeight + verticalGap) \<le> pos_y b) ps"

text \<open>The tree of the centring example: a root whose first child has three leaves.\<close>

definition centringExample :: MindMapNode where
  "centringExample =
     MindMapNode None ''r''
       (Some [MindMapNode None ''a''
                (Some [MindMapNode None ''a1'' None, MindMapNode None ''a2'' None,
                       MindMapNode None ''a3'' None]),
              MindMapNode None ''b'' None])"

text \<open>A root with two leaves, the example of the specification.\<close>

definition twoLeaves :: MindMapNode where
  "twoLeaves =
     MindMapNode None ''r'' (Some [MindMapNode None ''a'' None, MindMapNode None ''b'' None])"

section \<open>Viewport transform and gestures\<close>

text \<open>
  JavaScript numbers.  Coordinates of pointer events, distances and pan offsets are
  finite and are modelled as reals (rounding and overflow are left out).  The scale is
  the one value that is computed by a division whose divisor can be zero, so it is a
  number with the special values of IEEE arithmetic: a division by zero gives an
  infinity or NaN, and NaN goes through \<^verbatim>\<open>Math.min\<close> and \<^verbatim>\<open>Math.max\<close>.
\<close>

datatype jsnum = Fin real | PInf | NInf | NaN

text \<open>\<^verbatim>\<open>a / b\<close> for finite operands; the divisor zero is the positive zero here.\<close>

definition jsdiv :: "real \<Rightarrow> real \<Rightarrow> jsnum" where
  "jsdiv a b =
     (if b \<noteq> 0 then Fin (a / b)
      else if a = 0 then NaN
      else if a > 0 then PInf else NInf)"

fun jsmul :: "jsnum \<Rightarrow> jsnum \<Rightarrow> jsnum" where
  "jsmul NaN _ = NaN"
| "jsmul _ NaN = NaN"
| "jsmul (Fin a) (Fin b) = Fin (a * b)"
| "jsmul (Fin a) PInf = (if a = 0 then NaN else if a > 0 then PInf else NInf)"
| "jsmul (Fin a) NInf = (if a = 0 then NaN else if a > 0 then NInf else PInf)"
| "jsmul PInf (Fin b) = (if b = 0 then NaN else if b > 0 then PInf else NInf)"
| "jsmul NInf (Fin b) = (if b = 0 then NaN else if b > 0 then NInf else PInf)"
| "jsmul PInf PInf = PInf"
| "jsmul PInf NInf = NInf"
| "jsmul NInf PInf = NInf"
| "jsmul NInf NInf = PInf"

fun jsmin :: "jsnum \<Rightarrow> jsnum \<Rightarrow> jsnum" where
  "jsmin NaN _ = NaN"
| "jsmin _ NaN = NaN"
| "jsmin NInf _ = NInf"
| "jsmin _ NInf = NInf"
| "jsmin PInf b = b"
| "jsmin a PInf = a"
| "jsmin (Fin a) (Fin b) = Fin (min a b)"

fun jsmax :: "jsnum \<Rightarrow> jsnum \<Rightarrow> jsnum" where
  "jsmax NaN _ = NaN"
| "jsmax _ NaN = NaN"
| "jsmax PInf _ = PInf"
| "jsmax _ PInf = PInf"
| "jsmax NInf b = b"
| "jsmax a NInf = a"
| "jsmax (Fin a) (Fin b) = Fin (max a b)"

record Transform =
  t_x :: real
  t_y :: real
  scale :: jsnum

record PointerEvent =
  pointerId :: int
  clientX :: real
  clientY :: real

text \<open>
  The state of the component that the handlers read and write: the transform, the
  pointer cache (a \<^verbatim>\<open>Map\<close>, which keeps its keys in insertion order), the last
  two-pointer distance and the last single-pointer point.
\<close>

record GestureState =
  transform :: Transform
  pointerCache :: "(int \<times> PointerEvent) list"
  lastDist :: "real option"
  lastPoint :: "(real \<times> real) option"

definition initialTransform :: Transform where
  "initialTransform = \<lparr>t_x = 50, t_y = 150, scale = Fin 0.8\<rparr>"

definition initialState :: GestureState where
  "initialState = \<lparr>transform = initialTransform, pointerCache = [], lastDist = None,
                    lastPoint = None\<rparr>"

text \<open>\<^verbatim>\<open>Map.prototype.set\<close>: an existing key keeps its place, a new key goes last.\<close>

fun mapSet :: "(int \<times> PointerEvent) list \<Rightarrow> int \<Rightarrow> PointerEvent \<Rightarrow> (int \<times> PointerEvent) list" where
  "mapSet [] k v = [(k, v)]"
| "mapSet ((k', v') # m) k v = (if k' = k then (k, v) # m else (k', v') # mapSet m k v)"

definition mapDelete :: "(int \<times> PointerEvent) list \<Rightarrow> int \<Rightarrow> (int \<times> PointerEvent) list" where
  "mapDelete m k = filter (\<lambda>(k', v). k' \<noteq> k) m"

definition zoom :: "jsnum \<Rightarrow> Transform \<Rightarrow> Transform" where
  "zoom factor t = t\<lparr>scale := jsmax (Fin 0.1) (jsmin (Fin 5) (jsmul (scale t) factor))\<rparr>"

definition handlePointerDown :: "GestureState \<Rightarrow> PointerEvent \<Rightarrow> GestureState" where
  "handlePointerDown s e =
     s\<lparr>pointerCache := mapSet (pointerCache s) (pointerId e) e,
       lastPoint := Some (clientX e, clientY e)\<rparr>"

definition pointerDist :: "PointerEvent \<Rightarrow> PointerEvent \<Rightarrow> real" where
  "pointerDist p1 p2 = sqrt ((clientX p2 - clientX p1)\<^sup>2 + (clientY p2 - clientY p1)\<^sup>2)"

definition handlePointerMove :: "GestureState \<Rightarrow> PointerEvent \<Rightarrow> GestureState" where
  "handlePointerMove s e =
     (let cache = mapSet (pointerCache s) (pointerId e) e;
          s1 = s\<lparr>pointerCache := cache\<rparr>;
          pointers = map snd cache
      in if length pointers = 1 \<and> lastPoint s \<noteq> None then
           (case lastPoint s of
              None \<Rightarrow> s1
            | Some (lx, ly) \<Rightarrow>
                (let dx = clientX e - lx; dy = clientY e - ly;
                     t = transform s
                 in s1\<lparr>transform := t\<lparr>t_x := t_x t + dx, t_y := t_y t + dy\<rparr>,
                       lastPoint := Some (clientX e, clientY e)\<rparr>))
         else if length pointers = 2 then
           (let p1 = pointers ! 0; p2 = pointers ! 1;
                dist = pointerDist p1 p2;
                s2 = (case lastDist s of
                        None \<Rightarrow> s1
                      | Some d \<Rightarrow> s1\<lparr>transform := zoom (jsdiv dist d) (transform s)\<rparr>)
            in s2\<lparr>lastDist := Some dist\<rparr>)
         else s1)"

definition handlePointerUp :: "GestureState \<Rightarrow> PointerEvent \<Rightarrow> GestureState" where
  "handlePointerUp s e =
     (let cache = mapDelete (pointerCache s) (pointerId e);
          s1 = s\<lparr>pointerCache := cache\<rparr>;
          s2 = (if length cache < 2 then s1\<lparr>lastDist := None\<rparr> else s1)
      in if length cache = 0 then s2\<lparr>lastPoint := None\<rparr> else s2)"

definition handleWheel :: "GestureState \<Rightarrow> real \<Rightarrow> GestureState" where
  "handleWheel s deltaY =
     (let scaleFactor = 1 - deltaY * 0.001
      in s\<lparr>transform := zoom (Fin scaleFactor) (transform s)\<rparr>)"

text \<open>
  The events that the \<^verbatim>\<open>svg\<close> element dispatches; pointer-cancel has the handler of
  pointer-up.
\<close>

datatype Event =
  PointerDown PointerEvent | PointerMove PointerEvent | PointerUp PointerEvent
| PointerCancel PointerEvent | Wheel real

fun step :: "GestureState \<Rightarrow> Event \<Rightarrow> GestureState" where
  "step s (PointerDown e) = handlePointerDown s e"
| "step s (PointerMove e) = handlePointerMove s e"
| "step s (PointerUp e) = handlePointerUp s e"
| "step s (PointerCancel e) = handlePointerUp s e"
| "step s (Wheel deltaY) = handleWheel s deltaY"

definition run :: "GestureState \<Rightarrow> Event list \<Rightarrow> GestureState" where
  "run s evs = foldl step s evs"

text \<open>The range that the scale is clamped to.\<close>

fun inRange :: "jsnum \<Rightarrow> bool" where
  "inRange (Fin r) = (0.1 \<le> r \<and> r \<le> 5)"
| "inRange _ = False"

text \<open>
  A pinch move is a pointer-move after which the cache holds exactly two pointers;
  \<open>noPinchMove\<close> says that a sequence of events, run from a state, has none.
\<close>

fun pinchMove :: "GestureState \<Rightarrow> Event \<Rightarrow> bool" where
  "pinchMove s (PointerMove e) = (length (mapSet (pointerCache s) (pointerId e) e) = 2)"
| "pinchMove s _ = False"

fun noPinchMove :: "GestureState \<Rightarrow> Event list \<Rightarrow> bool" where
  "noPinchMove s [] = True"
| "noPinchMove s (ev # evs) = (\<not> pinchMove s ev \<and> noPinchMove (step s ev) evs)"

section \<open>The layout: cursor, centring and separation\<close>

lemma step80: "nodeHeight + verticalGap = 80"
  by (simp add: nodeHeight_def verticalGap_def)

lemma calc_leaf:
  "\<not> hasKids cs \<or> has S i \<Longrightarrow>
   calculatePositions S (MindMapNode i l cs) d y =
     (PosNode i l (real d * horizontalGap) y (hasKids cs) (has S i) [], y + 80)"
  by (auto simp: hasKids_def step80 Let_def)

lemma calc_inner:
  "ks \<noteq> [] \<Longrightarrow> \<not> has S i \<Longrightarrow> positionChildren S ks (d + 1) y = (ps, y') \<Longrightarrow>
   calculatePositions S (MindMapNode i l (Some ks)) d y =
     (PosNode i l (real d * horizontalGap) ((y + (y' - 80)) / 2) True False ps, y')"
  by (simp add: step80 Let_def)

declare calculatePositions.simps [simp del]

lemma kids_cons:
  "calculatePositions S c d y = (p, y') \<Longrightarrow> positionChildren S ks d y' = (ps, y'') \<Longrightarrow>
   positionChildren S (c # ks) d y = (p # ps, y'')"
  by simp

lemma layout_induct:
  assumes leaf: "\<And>i l cs d y. \<not> hasKids cs \<or> has S i \<Longrightarrow>
            P (MindMapNode i l cs) d y
              (PosNode i l (real d * horizontalGap) y (hasKids cs) (has S i) []) (y + 80)"
    and inner: "\<And>i l ks d y ps y'. ks \<noteq> [] \<Longrightarrow> \<not> has S i \<Longrightarrow>
            positionChildren S ks (d + 1) y = (ps, y') \<Longrightarrow> Q ks (d + 1) y ps y' \<Longrightarrow>
            P (MindMapNode i l (Some ks)) d y
              (PosNode i l (real d * horizontalGap) ((y + (y' - 80)) / 2) True False ps) y'"
    and nil: "\<And>d y. Q [] d y [] y"
    and cons: "\<And>c ks d y p y' ps y''. calculatePositions S c d y = (p, y') \<Longrightarrow> P c d y p y' \<Longrightarrow>
            positionChildren S ks d y' = (ps, y'') \<Longrightarrow> Q ks d y' ps y'' \<Longrightarrow>
            Q (c # ks) d y (p # ps) y''"
  shows "(calculatePositions S t d y0 = (p, y1) \<longrightarrow> P t d y0 p y1) \<and>
         (positionChildren S ks e z0 = (ps, z1) \<longrightarrow> Q ks e z0 ps z1)"
proof -
  have "S' = S \<Longrightarrow> calculatePositions S' t d y0 = (p, y1) \<Longrightarrow> P t d y0 p y1"
    and "S' = S \<Longrightarrow> positionChildren S' ks e z0 = (ps, z1) \<Longrightarrow> Q ks e z0 ps z1" for S'
  proof (induction S' t d y0 and S' ks e z0 arbitrary: p y1 and ps z1
       rule: calculatePositions_positionChildren.induct)
    case (1 S' i l cs depth yOffset)
    note S = \<open>S' = S\<close>
    show ?case
    proof (cases "\<not> hasKids cs \<or> has S i")
      case True
      from calc_leaf[OF True, of l depth yOffset] "1.prems"(2) S
      have "p = PosNode i l (real depth * horizontalGap) yOffset (hasKids cs) (has S i) []"
        and "y1 = yOffset + 80" by auto
      with leaf[OF True, of l depth yOffset] show ?thesis by simp
    next
      case False
      then obtain ks where cs: "cs = Some ks" and ne: "ks \<noteq> []" and nc: "\<not> has S i"
        by (auto simp: hasKids_def split: option.splits)
      obtain qs y' where pc: "positionChildren S ks (depth + 1) yOffset = (qs, y')"
        by (cases "positionChildren S ks (depth + 1) yOffset")
      have "Q ks (depth + 1) yOffset qs y'"
        using "1.IH"[OF refl refl _ cs refl S] pc False S
        by (simp add: hasKids_def)
      moreover from calc_inner[OF ne nc pc, of l] "1.prems"(2) cs S
      have "p = PosNode i l (real depth * horizontalGap) ((yOffset + (y' - 80)) / 2) True False qs"
        and "y1 = y'" by auto
      ultimately show ?thesis using inner[OF ne nc pc, of l] cs by simp
    qed
  next
    case (2 S' depth yOffset)
    then show ?case using nil by simp
  next
    case (3 S' c ks depth yOffset)
    note S = \<open>S' = S\<close>
    obtain q y' where c: "calculatePositions S c depth yOffset = (q, y')"
      by (cases "calculatePositions S c depth yOffset")
    obtain qs y'' where k: "positionChildren S ks depth y' = (qs, y'')"
      by (cases "positionChildren S ks depth y'")
    from "3.prems"(2) c k S have eq: "ps = q # qs" "z1 = y''" by auto
    have "P c depth yOffset q y'" using "3.IH"(1)[OF S] c S by simp
    moreover have "Q ks depth y' qs y''" using "3.IH"(2)[OF refl _ S] c k S by simp
    ultimately show ?case using cons[OF c _ k] eq by simp
  qed
  then show ?thesis by simp
qed

lemma cursor_bounds_both:
  "(calculatePositions S t d y0 = (p, y1) \<longrightarrow> y0 \<le> pos_y p \<and> pos_y p + 80 \<le> y1) \<and>
   (positionChildren S ks e z0 = (ps, z1) \<longrightarrow>
     z0 \<le> z1 \<and> (ks \<noteq> [] \<longrightarrow> z0 + 80 \<le> z1) \<and> length ps = length ks \<and>
     (\<forall>q \<in> set ps. z0 \<le> pos_y q \<and> pos_y q + 80 \<le> z1))"
proof (rule layout_induct[where S = S], goal_cases)
  case (1 i l cs d y)
  then show ?case by simp
next
  case (2 i l ks d y ps y')
  then show ?case by (auto simp: field_simps)
next
  case (3 d y)
  then show ?case by simp
next
  case (4 c ks d y p y' ps y'')
  then show ?case by auto
qed

lemmas cursor_bounds = cursor_bounds_both[THEN conjunct1, rule_format]

lemmas kids_bounds = cursor_bounds_both[THEN conjunct2, rule_format]

lemma lastLeafY_leaf [simp]: "lastLeafY (PosNode i l x y hc col []) = y"
  by simp

lemma lastLeafY_inner: "ps \<noteq> [] \<Longrightarrow> lastLeafY (PosNode i l x y hc col ps) = lastLeafY (last ps)"
  by simp

lemma firstLeafY_inner: "ps \<noteq> [] \<Longrightarrow> firstLeafY (PosNode i l x y hc col ps) = firstLeafY (hd ps)"
  by (cases ps) simp_all

lemma firstLeafY_leaf [simp]: "firstLeafY (PosNode i l x y hc col []) = y"
  by simp

declare lastLeafY.simps [simp del] firstLeafY.simps [simp del]

lemma leaf_span_both:
  "(calculatePositions S t d y0 = (p, y1) \<longrightarrow> firstLeafY p = y0 \<and> lastLeafY p = y1 - 80) \<and>
   (positionChildren S ks e z0 = (ps, z1) \<longrightarrow>
      (ks \<noteq> [] \<longrightarrow> firstLeafY (hd ps) = z0 \<and> lastLeafY (last ps) = z1 - 80))"
proof (rule layout_induct[where S = S], goal_cases)
  case (1 i l cs d y)
  then show ?case by simp
next
  case (2 i l ks d y ps y')
  from kids_bounds[OF 2(3)] 2(1) have "ps \<noteq> []" by auto
  with 2 show ?case by (simp add: lastLeafY_inner firstLeafY_inner)
next
  case (3 d y)
  then show ?case by simp
next
  case (4 c ks d y p y' ps y'')
  show ?case
  proof (cases "ks = []")
    case True
    with 4(3) have "ps = []" "y'' = y'" by simp_all
    with 4(2) show ?thesis by simp
  next
    case False
    with kids_bounds[OF 4(3)] have "ps \<noteq> []" by auto
    with 4 False show ?thesis by simp
  qed
qed

lemmas leaf_span = leaf_span_both[THEN conjunct1, rule_format]

lemma centred_both:
  "(calculatePositions S t d y0 = (p, y1) \<longrightarrow> (\<forall>q \<in> set (pnodes p). centred q)) \<and>
   (positionChildren S ks e z0 = (ps, z1) \<longrightarrow> (\<forall>c \<in> set ps. \<forall>q \<in> set (pnodes c). centred q))"
proof (rule layout_induct[where S = S], goal_cases)
  case (1 i l cs d y)
  then show ?case by (simp add: centred_def)
next
  case (2 i l ks d y ps y')
  from leaf_span[OF calc_inner[OF 2(1,2,3), of l]]
  have "centred (PosNode i l (real d * horizontalGap) ((y + (y' - 80)) / 2) True False ps)"
    by (simp add: centred_def)
  with 2(4) show ?case by auto
next
  case (3 d y)
  then show ?case by simp
next
  case (4 c ks d y p y' ps y'')
  then show ?case by auto
qed

lemma separated_both:
  "(calculatePositions S t d y0 = (p, y1) \<longrightarrow> (\<forall>q \<in> set (pnodes p). separated (childrenNodes q))) \<and>
   (positionChildren S ks e z0 = (ps, z1) \<longrightarrow>
      separated ps \<and> (\<forall>c \<in> set ps. \<forall>q \<in> set (pnodes c). separated (childrenNodes q)))"
proof (rule layout_induct[where S = S], goal_cases)
  case (1 i l cs d y)
  then show ?case by (simp add: separated_def)
next
  case (2 i l ks d y ps y')
  then show ?case by auto
next
  case (3 d y)
  then show ?case by (simp add: separated_def)
next
  case (4 c ks d y p y' ps y'')
  from cursor_bounds[OF 4(1)] kids_bounds[OF 4(3)]
  have "\<forall>q \<in> set ps. pos_y p + 80 \<le> pos_y q" by fastforce
  with 4(2,4) show ?case by (auto simp: separated_def step80)
qed

lemma structure_both:
  "(calculatePositions S t d y0 = (p, y1) \<longrightarrow>
      (\<forall>q \<in> set (pnodes p). (childrenNodes q \<noteq> []) = (pos_hasChildren q \<and> \<not> pos_isCollapsed q))) \<and>
   (positionChildren S ks e z0 = (ps, z1) \<longrightarrow>
      (\<forall>c \<in> set ps. \<forall>q \<in> set (pnodes c).
          (childrenNodes q \<noteq> []) = (pos_hasChildren q \<and> \<not> pos_isCollapsed q)))"
proof (rule layout_induct[where S = S], goal_cases)
  case (1 i l cs d y)
  then show ?case by auto
next
  case (2 i l ks d y ps y')
  from kids_bounds[OF 2(3)] 2(1) have "ps \<noteq> []" by auto
  with 2(4) show ?case by auto
next
  case (3 d y)
  then show ?case by simp
next
  case (4 c ks d y p y' ps y'')
  then show ?case by auto
qed

lemma nonneg_both:
  "(calculatePositions S t d y0 = (p, y1) \<longrightarrow>
      pos_x p = real d * horizontalGap \<and> (\<forall>q \<in> set (pnodes p). 0 \<le> pos_x q \<and> y0 \<le> pos_y q)) \<and>
   (positionChildren S ks e z0 = (ps, z1) \<longrightarrow>
      (\<forall>c \<in> set ps. \<forall>q \<in> set (pnodes c). 0 \<le> pos_x q \<and> z0 \<le> pos_y q))"
proof (rule layout_induct[where S = S], goal_cases)
  case (1 i l cs d y)
  then show ?case by (simp add: horizontalGap_def)
next
  case (2 i l ks d y ps y')
  from kids_bounds[OF 2(3)] 2(1) have "y + 80 \<le> y'" by auto
  then have "y \<le> (y + (y' - 80)) / 2" by (simp add: field_simps)
  with 2(4) show ?case by (auto simp: horizontalGap_def)
next
  case (3 d y)
  then show ?case by simp
next
  case (4 c ks d y p y' ps y'')
  from cursor_bounds[OF 4(1)] have "y \<le> y'" by simp
  with 4(2,4) show ?case by fastforce
qed

lemma flatten_pnodes:
  "(\<forall>q \<in> set (pnodes p). pos_isCollapsed q \<longrightarrow> childrenNodes q = []) \<Longrightarrow>
   map (\<lambda>n. (ln_id n, ln_x n, ln_y n)) (flatten p px py) =
   map (\<lambda>q. (pos_id q, pos_x q, pos_y q)) (pnodes p)"
proof (induction p px py rule: flatten.induct)
  case (1 i l x y hc col ps px py)
  show ?case
  proof (cases col)
    case True
    with "1.prems" have "ps = []" by simp
    with True show ?thesis by simp
  next
    case False
    have "map (\<lambda>n. (ln_id n, ln_x n, ln_y n)) (flatten c (Some (x + nodeWidth)) (Some (y + nodeHeight / 2))) =
          map (\<lambda>q. (pos_id q, pos_x q, pos_y q)) (pnodes c)" if "c \<in> set ps" for c
      using "1.IH"[OF False that] "1.prems" that by auto
    then show ?thesis using False by (simp add: map_concat comp_def cong: map_cong)
  qed
qed

lemma flatten_visible_both:
  "(calculatePositions S t d y0 = (p, y1) \<longrightarrow>
      (\<forall>px py. map ln_id (flatten p px py) = map node_id (visible S t))) \<and>
   (positionChildren S ks e z0 = (ps, z1) \<longrightarrow>
      (\<forall>px py. map ln_id (concat (map (\<lambda>c. flatten c px py) ps)) =
               map node_id (concat (map (visible S) ks))))"
proof (rule layout_induct[where S = S], goal_cases)
  case (1 i l cs d y)
  then show ?case by (auto simp: hasKids_def split: option.splits)
next
  case (2 i l ks d y ps y')
  then show ?case by simp
next
  case (3 d y)
  then show ?case by simp
next
  case (4 c ks d y p y' ps y'')
  then show ?case by simp
qed

lemma calc_cong_both:
  "((\<forall>n \<in> set (allNodes t). has S' (node_id n) = has S (node_id n)) \<longrightarrow>
      calculatePositions S' t d y0 = calculatePositions S t d y0) \<and>
   ((\<forall>c \<in> set ks. \<forall>n \<in> set (allNodes c). has S' (node_id n) = has S (node_id n)) \<longrightarrow>
      positionChildren S' ks e z0 = positionChildren S ks e z0)"
proof -
  have "S0 = S \<Longrightarrow> \<forall>n \<in> set (allNodes t). has S' (node_id n) = has S (node_id n) \<Longrightarrow>
      calculatePositions S' t d y0 = calculatePositions S0 t d y0"
    and "S0 = S \<Longrightarrow> \<forall>c \<in> set ks. \<forall>n \<in> set (allNodes c). has S' (node_id n) = has S (node_id n) \<Longrightarrow>
      positionChildren S' ks e z0 = positionChildren S0 ks e z0" for S0
  proof (induction S0 t d y0 and S0 ks e z0 rule: calculatePositions_positionChildren.induct)
    case (1 S0 i l cs depth yOffset)
    note S = \<open>S0 = S\<close>
    from "1.prems"(2) have i: "has S' i = has S i" by simp
    show ?case
    proof (cases "\<not> hasKids cs \<or> has S i")
      case True
      then have "\<not> hasKids cs \<or> has S' i" using i by simp
      from calc_leaf[OF this] calc_leaf[OF True] i S show ?thesis by simp
    next
      case False
      then obtain ks where cs: "cs = Some ks" and ne: "ks \<noteq> []" and nc: "\<not> has S i"
        by (auto simp: hasKids_def split: option.splits)
      obtain qs y' where pc: "positionChildren S ks (depth + 1) yOffset = (qs, y')"
        by (cases "positionChildren S ks (depth + 1) yOffset")
      from "1.prems"(2) cs
      have "\<forall>c \<in> set ks. \<forall>n \<in> set (allNodes c). has S' (node_id n) = has S (node_id n)"
        by auto
      with "1.IH"[OF refl refl _ cs refl S] False S
      have "positionChildren S' ks (depth + 1) yOffset = positionChildren S ks (depth + 1) yOffset"
        by (simp add: hasKids_def)
      with pc have pc': "positionChildren S' ks (depth + 1) yOffset = (qs, y')" by simp
      from nc i have nc': "\<not> has S' i" by simp
      from calc_inner[OF ne nc pc] calc_inner[OF ne nc' pc'] cs S show ?thesis by simp
    qed
  next
    case (2 S0 depth yOffset)
    then show ?case by simp
  next
    case (3 S0 c ks depth yOffset)
    then show ?case by (auto split: prod.splits)
  qed
  then show ?thesis by simp
qed

lemma toggle_twice: "toggleNode i (toggleNode i S) = S"
  by (auto simp: toggleNode_def)

section \<open>Properties of the layout\<close>

lemma tree_calc: "calculatePositions S t 0 0 = (tree t S, snd (calculatePositions S t 0 0))"
  by (simp add: tree_def)

lemmas structure_tree = structure_both[THEN conjunct1, rule_format, OF tree_calc]

lemma nodes_pnodes:
  "map (\<lambda>n. (ln_id n, ln_x n, ln_y n)) (nodes t S) =
   map (\<lambda>q. (pos_id q, pos_x q, pos_y q)) (pnodes (tree t S))"
  unfolding nodes_def
  using structure_tree[of _ t S] by (intro flatten_pnodes) blast

lemma hd_flatten: "ln_x (hd (flatten p px py)) = pos_x p \<and> flatten p px py \<noteq> []"
  by (cases p) simp

text \<open>
  Claim C10.  Every node of the emitted layout sequence has \<open>x \<ge> 0\<close> and \<open>y \<ge> 0\<close>,
  the sequence is not empty and its first node, the root, has \<open>x = 0\<close>; the cursor
  that \<^verbatim>\<open>calculatePositions\<close> returns is never below the cursor it was given.
\<close>
theorem layout_nonnegative:
  "(\<forall>n \<in> set (nodes t S). 0 \<le> ln_x n \<and> 0 \<le> ln_y n) \<and>
   nodes t S \<noteq> [] \<and> ln_x (hd (nodes t S)) = 0 \<and>
   (\<forall>d y. y \<le> snd (calculatePositions S t d y))"
proof (intro conjI ballI allI)
  fix n assume "n \<in> set (nodes t S)"
  then have "(ln_id n, ln_x n, ln_y n) \<in> set (map (\<lambda>n. (ln_id n, ln_x n, ln_y n)) (nodes t S))"
    by simp
  then obtain q where q: "q \<in> set (pnodes (tree t S))" and "ln_x n = pos_x q" "ln_y n = pos_y q"
    unfolding nodes_pnodes by auto
  moreover from nonneg_both[THEN conjunct1, rule_format, OF tree_calc] q
  have "0 \<le> pos_x q \<and> 0 \<le> pos_y q" by simp
  ultimately show "0 \<le> ln_x n" "0 \<le> ln_y n" by simp_all
next
  show "nodes t S \<noteq> []" by (simp add: nodes_def hd_flatten)
next
  from nonneg_both[THEN conjunct1, rule_format, OF tree_calc]
  show "ln_x (hd (nodes t S)) = 0" by (simp add: nodes_def hd_flatten)
next
  fix d y
  from cursor_bounds[of S t d y "fst (calculatePositions S t d y)" "snd (calculatePositions S t d y)"]
  show "y \<le> snd (calculatePositions S t d y)" by simp
qed

lemmas eval_layout = nodes_def tree_def dataWithIds_def has_def nodeHeight_def verticalGap_def
  horizontalGap_def nodeWidth_def calculatePositions.simps showNat.simps digitChar_def

theorem layout_nonnegative_witness:
  "map (\<lambda>n. (ln_x n, ln_y n)) (nodes (dataWithIds centringExample) {}) =
     [(0, 120), (200, 80), (400, 0), (400, 80), (400, 160), (200, 240)] \<and>
   list_all (\<lambda>n. 0 \<le> ln_x n \<and> 0 \<le> ln_y n) (nodes (dataWithIds centringExample) {}) \<and>
   ln_x (hd (nodes (dataWithIds centringExample) {})) = 0 \<and>
   0 \<le> snd (calculatePositions {} (dataWithIds centringExample) 0 0)"
  using layout_nonnegative[of "dataWithIds centringExample" "{}"]
  by (simp add: list_all_iff) (simp add: eval_layout centringExample_def)

text \<open>
  Claim C2.  In the positioned tree, whose nodes are the nodes of the output
  (\<open>nodes_pnodes\<close>), the positioned children of any node are the rendered children of
  that node.  Taken in traversal order, a later child lies at least
  \<open>nodeHeight + verticalGap\<close> below an earlier one, so that their vertical ranges
  \<open>[y, y + nodeHeight]\<close> are disjoint.
\<close>
theorem siblings_disjoint:
  assumes "q \<in> set (pnodes (tree t S))" and "i < j" and "j < length (childrenNodes q)"
  shows "pos_y (childrenNodes q ! i) + (nodeHeight + verticalGap) \<le> pos_y (childrenNodes q ! j) \<and>
         {pos_y (childrenNodes q ! i) .. pos_y (childrenNodes q ! i) + nodeHeight} \<inter>
         {pos_y (childrenNodes q ! j) .. pos_y (childrenNodes q ! j) + nodeHeight} = {}"
proof -
  from separated_both[THEN conjunct1, rule_format, OF tree_calc] assms(1)
  have "separated (childrenNodes q)" by simp
  with assms(2,3) have "pos_y (childrenNodes q ! i) + 80 \<le> pos_y (childrenNodes q ! j)"
    by (simp add: separated_def step80 sorted_wrt_iff_nth_less)
  then show ?thesis by (auto simp: nodeHeight_def verticalGap_def)
qed

theorem siblings_disjoint_witness:
  "tree (dataWithIds centringExample) {} \<in> set (pnodes (tree (dataWithIds centringExample) {})) \<and>
   (0::nat) < 1 \<and> 1 < length (childrenNodes (tree (dataWithIds centringExample) {})) \<and>
   pos_y (childrenNodes (tree (dataWithIds centringExample) {}) ! 0) = 80 \<and>
   pos_y (childrenNodes (tree (dataWithIds centringExample) {}) ! 1) = 240 \<and>
   {pos_y (childrenNodes (tree (dataWithIds centringExample) {}) ! 0) ..
    pos_y (childrenNodes (tree (dataWithIds centringExample) {}) ! 0) + nodeHeight} \<inter>
   {pos_y (childrenNodes (tree (dataWithIds centringExample) {}) ! 1) ..
    pos_y (childrenNodes (tree (dataWithIds centringExample) {}) ! 1) + nodeHeight} = {}"
proof -
  have a: "tree (dataWithIds centringExample) {} \<in> set (pnodes (tree (dataWithIds centringExample) {}))"
    by (cases "tree (dataWithIds centringExample) {}") simp
  have b: "length (childrenNodes (tree (dataWithIds centringExample) {})) = 2 \<and>
   pos_y (childrenNodes (tree (dataWithIds centringExample) {}) ! 0) = 80 \<and>
   pos_y (childrenNodes (tree (dataWithIds centringExample) {}) ! 1) = 240"
    by (simp add: eval_layout centringExample_def)
  from b have c: "1 < length (childrenNodes (tree (dataWithIds centringExample) {}))" by simp
  from siblings_disjoint[OF a _ c, of 0] a b show ?thesis by (simp add: nodeHeight_def)
qed

text \<open>
  Claim C1 does not hold as stated: the source takes the midpoint of the cursor span,
  \<^verbatim>\<open>(startY + endY) / 2\<close>, which is the midpoint of the first and the last leaf
  below the node.  In the centring example the root lies at 120, its children at 80
  and 240.
\<close>
theorem parent_centring_counterexample:
  "pos_hasChildren (tree (dataWithIds centringExample) {}) \<and>
   \<not> pos_isCollapsed (tree (dataWithIds centringExample) {}) \<and>
   pos_y (tree (dataWithIds centringExample) {}) = 120 \<and>
   pos_y (hd (childrenNodes (tree (dataWithIds centringExample) {}))) = 80 \<and>
   pos_y (last (childrenNodes (tree (dataWithIds centringExample) {}))) = 240 \<and>
   pos_y (tree (dataWithIds centringExample) {}) \<noteq>
     (pos_y (hd (childrenNodes (tree (dataWithIds centringExample) {}))) +
      pos_y (last (childrenNodes (tree (dataWithIds centringExample) {})))) / 2"
  by (simp add: eval_layout centringExample_def)

text \<open>
  Claim C1, amended.  Every laid-out node that has children and is not collapsed lies
  midway between the leaf reached through first children and the leaf reached through
  last children; when its first and its last child have no positioned children of their
  own (they are leaves or collapsed), this is the average of the first child's and the
  last child's \<open>y\<close>.
\<close>
theorem parent_centring:
  assumes "q \<in> set (pnodes (tree t S))" and "pos_hasChildren q" and "\<not> pos_isCollapsed q"
  shows "pos_y q = (firstLeafY q + lastLeafY q) / 2 \<and>
         (childrenNodes (hd (childrenNodes q)) = [] \<and> childrenNodes (last (childrenNodes q)) = [] \<longrightarrow>
          pos_y q = (pos_y (hd (childrenNodes q)) + pos_y (last (childrenNodes q))) / 2)"
proof -
  from structure_tree[OF assms(1)] assms(2,3) have ne: "childrenNodes q \<noteq> []" by simp
  from centred_both[THEN conjunct1, rule_format, OF tree_calc] assms(1)
  have "centred q" by simp
  with ne have mid: "pos_y q = (firstLeafY q + lastLeafY q) / 2" by (simp add: centred_def)
  have leafY: "firstLeafY c = pos_y c \<and> lastLeafY c = pos_y c" if "childrenNodes c = []" for c
    using that by (cases c) simp
  have "firstLeafY q = firstLeafY (hd (childrenNodes q))" "lastLeafY q = lastLeafY (last (childrenNodes q))"
    using ne by (cases q; simp add: firstLeafY_inner lastLeafY_inner)+
  with mid leafY show ?thesis by auto
qed

theorem parent_centring_witness:
  "tree (dataWithIds twoLeaves) {} \<in> set (pnodes (tree (dataWithIds twoLeaves) {})) \<and>
   pos_hasChildren (tree (dataWithIds twoLeaves) {}) \<and>
   \<not> pos_isCollapsed (tree (dataWithIds twoLeaves) {}) \<and>
   map pos_y (childrenNodes (tree (dataWithIds twoLeaves) {})) = [0, 80] \<and>
   pos_y (tree (dataWithIds twoLeaves) {}) = 40 \<and>
   pos_y (tree (dataWithIds twoLeaves) {}) =
     (pos_y (hd (childrenNodes (tree (dataWithIds twoLeaves) {}))) +
      pos_y (last (childrenNodes (tree (dataWithIds twoLeaves) {})))) / 2"
proof -
  have a: "tree (dataWithIds twoLeaves) {} \<in> set (pnodes (tree (dataWithIds twoLeaves) {}))"
    by (cases "tree (dataWithIds twoLeaves) {}") simp
  have b: "pos_hasChildren (tree (dataWithIds twoLeaves) {}) \<and>
      \<not> pos_isCollapsed (tree (dataWithIds twoLeaves) {}) \<and>
      map pos_y (childrenNodes (tree (dataWithIds twoLeaves) {})) = [0, 80] \<and>
      pos_y (tree (dataWithIds twoLeaves) {}) = 40 \<and>
      childrenNodes (hd (childrenNodes (tree (dataWithIds twoLeaves) {}))) = [] \<and>
      childrenNodes (last (childrenNodes (tree (dataWithIds twoLeaves) {}))) = []"
    by (simp add: eval_layout twoLeaves_def)
  from parent_centring[OF a, of] a b show ?thesis by simp
qed

text \<open>
  Claim C4.  Toggling an identifier twice gives back the layout of the collapse set one
  started from.
\<close>
theorem toggle_round_trip: "nodes t (toggleNode i (toggleNode i S)) = nodes t S"
  by (simp add: toggle_twice)

theorem toggle_round_trip_witness:
  "toggleNode ''root-0'' {} = {''root-0''} \<and>
   map ln_id (nodes (dataWithIds centringExample) (toggleNode ''root-0'' {})) =
     [Some ''root'', Some ''root-0'', Some ''root-1''] \<and>
   nodes (dataWithIds centringExample) (toggleNode ''root-0'' (toggleNode ''root-0'' {})) =
   nodes (dataWithIds centringExample) {}"
  using toggle_round_trip[of "dataWithIds centringExample" "''root-0''" "{}"]
  by (simp add: toggleNode_def) (simp add: eval_layout centringExample_def)

text \<open>
  Claim C8.  An identifier that no node of the tree carries can be added to the collapse
  set without changing the layout; the layout is a total function, so there is no error.
\<close>
theorem stale_ids_harmless:
  assumes "Some v \<notin> node_id ` set (allNodes t)"
  shows "nodes t (S \<union> {v}) = nodes t S"
proof -
  have "has (S \<union> {v}) (node_id n) = has S (node_id n)" if "n \<in> set (allNodes t)" for n
    using that assms by (force simp: has_def split: option.splits)
  with calc_cong_both[THEN conjunct1, rule_format, of t "S \<union> {v}" S 0 0]
  show ?thesis by (simp add: nodes_def tree_def)
qed

theorem stale_ids_harmless_witness:
  "Some ''root-7'' \<notin> node_id ` set (allNodes (dataWithIds twoLeaves)) \<and>
   nodes (dataWithIds twoLeaves) ({''root-0''} \<union> {''root-7''}) = nodes (dataWithIds twoLeaves) {''root-0''}"
proof -
  have a: "Some ''root-7'' \<notin> node_id ` set (allNodes (dataWithIds twoLeaves))"
    by (simp add: dataWithIds_def twoLeaves_def showNat.simps digitChar_def)
  from stale_ids_harmless[OF a] a show ?thesis by simp
qed

section \<open>Properties of the gesture handlers\<close>

lemma sqrt_10000: "sqrt 10000 = 100"
  by (rule real_sqrt_unique) auto

lemma sqrt_2500: "sqrt 2500 = 50"
  by (rule real_sqrt_unique) auto

lemma step_keeps_None:
  "lastDist s = None \<Longrightarrow> \<not> pinchMove s ev \<Longrightarrow> lastDist (step s ev) = None"
  by (cases ev) (auto simp: handlePointerDown_def handlePointerMove_def handlePointerUp_def
      handleWheel_def Let_def split: option.splits)

lemma run_keeps_None:
  "lastDist s = None \<Longrightarrow> noPinchMove s evs \<Longrightarrow> lastDist (run s evs) = None"
  unfolding run_def
  by (induction evs arbitrary: s) (auto simp: step_keeps_None)

lemma up_clears:
  "length (pointerCache (handlePointerUp s e)) < 2 \<Longrightarrow> lastDist (handlePointerUp s e) = None"
  by (auto simp: handlePointerUp_def Let_def split: if_splits)

lemma move_rebaselines:
  "lastDist s = None \<Longrightarrow> pinchMove s (PointerMove m) \<Longrightarrow>
   transform (handlePointerMove s m) = transform s \<and>
   lastDist (handlePointerMove s m) =
     Some (pointerDist (snd (pointerCache (handlePointerMove s m) ! 0))
                       (snd (pointerCache (handlePointerMove s m) ! 1)))"
  by (auto simp: handlePointerMove_def Let_def)

text \<open>
  Claim C5.  When a pointer-up (or pointer-cancel, which has the same handler) leaves
  fewer than two pointers in the cache, the recorded pinch distance is cleared; it stays
  cleared over any events that are not pinch moves, and the next pinch move leaves the
  transform as it is and records the distance of the two pointers.  The witness runs
  the sequence down(A), down(B), move at distance 100, up(A), down(C), move at
  distance 50: the transform is still the initial one and the baseline is 50.
\<close>
theorem pinch_baseline_reset:
  assumes "length (pointerCache (handlePointerUp s u)) < 2"
    and "noPinchMove (handlePointerUp s u) evs"
    and "s' = run (handlePointerUp s u) evs"
    and "pinchMove s' (PointerMove m)"
  shows "lastDist (handlePointerUp s u) = None \<and> lastDist s' = None \<and>
         transform (handlePointerMove s' m) = transform s' \<and>
         lastDist (handlePointerMove s' m) =
           Some (pointerDist (snd (pointerCache (handlePointerMove s' m) ! 0))
                             (snd (pointerCache (handlePointerMove s' m) ! 1)))"
proof -
  from assms(1) have a: "lastDist (handlePointerUp s u) = None" by (rule up_clears)
  from run_keeps_None[OF a assms(2)] assms(3) have b: "lastDist s' = None" by simp
  from move_rebaselines[OF b assms(4)] a b show ?thesis by simp
qed

lemmas eval_gesture = run_def initialState_def initialTransform_def handlePointerDown_def
  handlePointerMove_def handlePointerUp_def handleWheel_def mapDelete_def pointerDist_def
  zoom_def jsdiv_def Let_def

theorem pinch_baseline_reset_witness:
  "lastDist (run initialState
      [PointerDown \<lparr>pointerId = 1, clientX = 0, clientY = 0\<rparr>,
       PointerDown \<lparr>pointerId = 2, clientX = 60, clientY = 80\<rparr>,
       PointerMove \<lparr>pointerId = 1, clientX = 0, clientY = 0\<rparr>]) = Some 100 \<and>
   length (pointerCache (handlePointerUp (run initialState
      [PointerDown \<lparr>pointerId = 1, clientX = 0, clientY = 0\<rparr>,
       PointerDown \<lparr>pointerId = 2, clientX = 60, clientY = 80\<rparr>,
       PointerMove \<lparr>pointerId = 1, clientX = 0, clientY = 0\<rparr>])
      \<lparr>pointerId = 1, clientX = 0, clientY = 0\<rparr>)) < 2 \<and>
   transform (run initialState
      [PointerDown \<lparr>pointerId = 1, clientX = 0, clientY = 0\<rparr>,
       PointerDown \<lparr>pointerId = 2, clientX = 60, clientY = 80\<rparr>,
       PointerMove \<lparr>pointerId = 1, clientX = 0, clientY = 0\<rparr>,
       PointerUp \<lparr>pointerId = 1, clientX = 0, clientY = 0\<rparr>,
       PointerDown \<lparr>pointerId = 3, clientX = 30, clientY = 40\<rparr>,
       PointerMove \<lparr>pointerId = 3, clientX = 30, clientY = 40\<rparr>]) = initialTransform \<and>
   lastDist (run initialState
      [PointerDown \<lparr>pointerId = 1, clientX = 0, clientY = 0\<rparr>,
       PointerDown \<lparr>pointerId = 2, clientX = 60, clientY = 80\<rparr>,
       PointerMove \<lparr>pointerId = 1, clientX = 0, clientY = 0\<rparr>,
       PointerUp \<lparr>pointerId = 1, clientX = 0, clientY = 0\<rparr>,
       PointerDown \<lparr>pointerId = 3, clientX = 30, clientY = 40\<rparr>,
       PointerMove \<lparr>pointerId = 3, clientX = 30, clientY = 40\<rparr>]) = Some 50"
proof -
  define A :: PointerEvent where "A = \<lparr>pointerId = 1, clientX = 0, clientY = 0\<rparr>"
  define B :: PointerEvent where "B = \<lparr>pointerId = 2, clientX = 60, clientY = 80\<rparr>"
  define C :: PointerEvent where "C = \<lparr>pointerId = 3, clientX = 30, clientY = 40\<rparr>"
  define s where "s = run initialState [PointerDown A, PointerDown B, PointerMove A]"
  define s' where "s' = run (handlePointerUp s A) [PointerDown C]"
  have s: "s = \<lparr>transform = initialTransform, pointerCache = [(1, A), (2, B)],
                 lastDist = Some 100, lastPoint = Some (60, 80)\<rparr>"
    by (simp add: s_def A_def B_def eval_gesture sqrt_10000)
  have up: "handlePointerUp s A = \<lparr>transform = initialTransform, pointerCache = [(2, B)],
                 lastDist = None, lastPoint = Some (60, 80)\<rparr>"
    by (simp add: s A_def B_def eval_gesture)
  have s': "s' = \<lparr>transform = initialTransform, pointerCache = [(2, B), (3, C)],
                 lastDist = None, lastPoint = Some (30, 40)\<rparr>"
    by (simp add: s'_def up run_def handlePointerDown_def B_def C_def)
  have h1: "length (pointerCache (handlePointerUp s A)) < 2" by (simp add: up)
  have h2: "noPinchMove (handlePointerUp s A) [PointerDown C]" by simp
  have h4: "pinchMove s' (PointerMove C)" by (simp add: s' B_def C_def)
  have d: "pointerDist B C = 50"
    by (simp add: pointerDist_def B_def C_def sqrt_2500)
  have c: "pointerCache (handlePointerMove s' C) = [(2, B), (3, C)]"
    by (simp add: s' handlePointerMove_def Let_def B_def C_def)
  have fin: "run initialState [PointerDown A, PointerDown B, PointerMove A, PointerUp A,
                PointerDown C, PointerMove C] = handlePointerMove s' C"
    by (simp add: s'_def s_def run_def)
  from pinch_baseline_reset[OF h1 h2 s'_def h4] c d
  have "transform (handlePointerMove s' C) = initialTransform \<and>
        lastDist (handlePointerMove s' C) = Some 50"
    by (simp add: s')
  with fin h1 s show ?thesis
    unfolding s_def A_def B_def C_def by simp
qed

text \<open>
  Claim C9.  A pointer-move with one pointer in the cache and a recorded point adds the
  pointer delta to the pan offsets and keeps the scale; a pointer-move with two pointers
  in the cache and a wheel event keep both pan offsets.
\<close>
theorem gesture_frame:
  "(length (pointerCache (handlePointerMove s e)) = 1 \<and> lastPoint s = Some (lx, ly) \<longrightarrow>
      t_x (transform (handlePointerMove s e)) = t_x (transform s) + (clientX e - lx) \<and>
      t_y (transform (handlePointerMove s e)) = t_y (transform s) + (clientY e - ly) \<and>
      scale (transform (handlePointerMove s e)) = scale (transform s)) \<and>
   (length (pointerCache (handlePointerMove s e)) = 2 \<longrightarrow>
      t_x (transform (handlePointerMove s e)) = t_x (transform s) \<and>
      t_y (transform (handlePointerMove s e)) = t_y (transform s)) \<and>
   t_x (transform (handleWheel s deltaY)) = t_x (transform s) \<and>
   t_y (transform (handleWheel s deltaY)) = t_y (transform s)"
  by (auto simp: handlePointerMove_def handleWheel_def zoom_def Let_def split: option.splits)

theorem gesture_frame_witness:
  "transform (run initialState
      [PointerDown \<lparr>pointerId = 1, clientX = 10, clientY = 20\<rparr>,
       PointerMove \<lparr>pointerId = 1, clientX = 13, clientY = 27\<rparr>]) =
     \<lparr>t_x = 53, t_y = 157, scale = Fin 0.8\<rparr> \<and>
   transform (run initialState
      [PointerDown \<lparr>pointerId = 1, clientX = 0, clientY = 0\<rparr>,
       PointerDown \<lparr>pointerId = 2, clientX = 60, clientY = 80\<rparr>,
       PointerMove \<lparr>pointerId = 1, clientX = 0, clientY = 0\<rparr>,
       PointerMove \<lparr>pointerId = 2, clientX = 30, clientY = 40\<rparr>]) =
     \<lparr>t_x = 50, t_y = 150, scale = Fin 0.4\<rparr> \<and>
   transform (handleWheel initialState 500) = \<lparr>t_x = 50, t_y = 150, scale = Fin 0.4\<rparr>"
proof -
  define A :: PointerEvent where "A = \<lparr>pointerId = 1, clientX = 10, clientY = 20\<rparr>"
  define A' :: PointerEvent where "A' = \<lparr>pointerId = 1, clientX = 13, clientY = 27\<rparr>"
  define s1 where "s1 = handlePointerDown initialState A"
  have s1: "s1 = \<lparr>transform = initialTransform, pointerCache = [(1, A)],
                  lastDist = None, lastPoint = Some (10, 20)\<rparr>"
    by (simp add: s1_def A_def eval_gesture)
  have l1: "length (pointerCache (handlePointerMove s1 A')) = 1 \<and> lastPoint s1 = Some (10, 20)"
    by (simp add: s1 A_def A'_def handlePointerMove_def Let_def)
  from gesture_frame[of s1 A' 10 20] l1
  have "t_x (transform (handlePointerMove s1 A')) = 53 \<and>
        t_y (transform (handlePointerMove s1 A')) = 157 \<and>
        scale (transform (handlePointerMove s1 A')) = Fin 0.8"
    by (simp add: s1 A'_def initialTransform_def)
  then have one: "transform (handlePointerMove s1 A') = \<lparr>t_x = 53, t_y = 157, scale = Fin 0.8\<rparr>"
    by (cases "transform (handlePointerMove s1 A')") simp
  define P :: PointerEvent where "P = \<lparr>pointerId = 1, clientX = 0, clientY = 0\<rparr>"
  define Q :: PointerEvent where "Q = \<lparr>pointerId = 2, clientX = 60, clientY = 80\<rparr>"
  define Q' :: PointerEvent where "Q' = \<lparr>pointerId = 2, clientX = 30, clientY = 40\<rparr>"
  define s2 where "s2 = run initialState [PointerDown P, PointerDown Q, PointerMove P]"
  have s2: "s2 = \<lparr>transform = initialTransform, pointerCache = [(1, P), (2, Q)],
                  lastDist = Some 100, lastPoint = Some (60, 80)\<rparr>"
    by (simp add: s2_def P_def Q_def eval_gesture sqrt_10000)
  have l2: "length (pointerCache (handlePointerMove s2 Q')) = 2"
    by (simp add: s2 P_def Q_def Q'_def handlePointerMove_def Let_def)
  have sc: "scale (transform (handlePointerMove s2 Q')) = Fin 0.4"
    by (simp add: s2 P_def Q_def Q'_def eval_gesture sqrt_2500)
  from gesture_frame[of s2 Q'] l2 sc
  have two: "transform (handlePointerMove s2 Q') = \<lparr>t_x = 50, t_y = 150, scale = Fin 0.4\<rparr>"
    by (cases "transform (handlePointerMove s2 Q')") (simp add: s2 initialTransform_def)
  have sw: "scale (transform (handleWheel initialState 500)) = Fin 0.4"
    by (simp add: eval_gesture)
  from gesture_frame[of initialState _ _ _ 500] sw
  have three: "transform (handleWheel initialState 500) = \<lparr>t_x = 50, t_y = 150, scale = Fin 0.4\<rparr>"
    by (cases "transform (handleWheel initialState 500)") (simp add: initialState_def initialTransform_def)
  have r1: "run initialState [PointerDown A, PointerMove A'] = handlePointerMove s1 A'"
    by (simp add: run_def s1_def)
  have r2: "run initialState [PointerDown P, PointerDown Q, PointerMove P, PointerMove Q'] =
            handlePointerMove s2 Q'"
    by (simp add: run_def s2_def)
  from one two three r1 r2 show ?thesis
    unfolding A_def A'_def P_def Q_def Q'_def by simp
qed

lemma zoom_in_range:
  assumes "factor \<noteq> NaN" and "inRange (scale t)"
  shows "inRange (scale (zoom factor t))"
  using assms by (cases factor; cases "scale t") (auto simp: zoom_def)

lemma zoom_range_or_nan:
  assumes "inRange (scale t) \<or> scale t = NaN"
  shows "inRange (scale (zoom factor t)) \<or> scale (zoom factor t) = NaN"
proof (cases "factor = NaN \<or> scale t = NaN")
  case True
  then show ?thesis by (cases "scale t") (auto simp: zoom_def)
next
  case False
  with assms zoom_in_range[of factor t] show ?thesis by simp
qed

lemma step_range_or_nan:
  assumes "inRange (scale (transform s)) \<or> scale (transform s) = NaN"
  shows "inRange (scale (transform (step s ev))) \<or> scale (transform (step s ev)) = NaN"
proof (cases ev)
  case (PointerMove e)
  with assms zoom_range_or_nan[OF assms] show ?thesis
    by (auto simp: handlePointerMove_def Let_def split: option.splits)
next
  case (Wheel deltaY)
  with zoom_range_or_nan[OF assms] show ?thesis by (simp add: handleWheel_def Let_def)
qed (use assms in \<open>auto simp: handlePointerDown_def handlePointerUp_def Let_def\<close>)

lemma run_range_or_nan:
  assumes "inRange (scale (transform s)) \<or> scale (transform s) = NaN"
  shows "inRange (scale (transform (run s evs))) \<or> scale (transform (run s evs)) = NaN"
  using assms unfolding run_def
proof (induction evs arbitrary: s)
  case Nil
  then show ?case by simp
next
  case (Cons ev evs)
  from Cons.IH[OF step_range_or_nan[OF Cons.prems]] show ?case by simp
qed

text \<open>
  Claim C6.  The clamp keeps the scale within the range for every factor but NaN, and
  NaN goes through \<^verbatim>\<open>Math.min\<close> and \<^verbatim>\<open>Math.max\<close>: from the initial state every
  run ends with a scale that is in the range or NaN (\<open>run_range_or_nan\<close>).  Two
  pointers at the same coordinates make the second pinch move divide zero by zero, and
  the scale is NaN from then on.
\<close>
theorem zoom_clamp_nan:
  "scale (transform (run initialState
      [PointerDown \<lparr>pointerId = 1, clientX = 0, clientY = 0\<rparr>,
       PointerDown \<lparr>pointerId = 2, clientX = 0, clientY = 0\<rparr>,
       PointerMove \<lparr>pointerId = 1, clientX = 0, clientY = 0\<rparr>,
       PointerMove \<lparr>pointerId = 1, clientX = 0, clientY = 0\<rparr>])) = NaN"
  by (simp add: eval_gesture)

section \<open>Identifiers\<close>

lemma digits_table:
  "list_all (\<lambda>n. digitVal (digitChar n) = n \<and> digitChar n \<noteq> CHR ''-'') [0..<10]"
  by (simp add: upt_rec digitVal_def digitChar_def)

lemma digitVal_digitChar: "n < 10 \<Longrightarrow> digitVal (digitChar n) = n"
  using digits_table by (simp add: list_all_iff)

lemma digitChar_not_dash: "n < 10 \<Longrightarrow> digitChar n \<noteq> CHR ''-''"
  using digits_table by (simp add: list_all_iff)

lemma readNat_snoc: "readNat (cs @ [c]) = 10 * readNat cs + digitVal c"
  by (simp add: readNat_def)

lemma readNat_showNat: "readNat (showNat n) = n"
proof (induction n rule: showNat.induct)
  case (1 n)
  show ?case
  proof (cases "n < 10")
    case True
    then show ?thesis
      by (subst showNat.simps) (simp add: readNat_def digitVal_digitChar)
  next
    case False
    with 1 have "readNat (showNat (n div 10)) = n div 10" by simp
    with False show ?thesis
      by (subst showNat.simps) (simp add: readNat_snoc digitVal_digitChar)
  qed
qed

lemma showNat_inj: "showNat a = showNat b \<Longrightarrow> a = b"
  by (metis readNat_showNat)

lemma showNat_no_dash: "CHR ''-'' \<notin> set (showNat n)"
proof (induction n rule: showNat.induct)
  case (1 n)
  show ?case
  proof (cases "n < 10")
    case True
    with digitChar_not_dash[of n] show ?thesis
      by (subst showNat.simps) auto
  next
    case False
    with 1 have "CHR ''-'' \<notin> set (showNat (n div 10))" by simp
    moreover have "digitChar (n mod 10) \<noteq> CHR ''-''" by (simp add: digitChar_not_dash)
    ultimately show ?thesis using False
      by (subst showNat.simps) auto
  qed
qed

lemma pathStr_Nil [simp]: "pathStr [] = []"
  by (simp add: pathStr_def)

lemma pathStr_Cons [simp]: "pathStr (k # p) = CHR ''-'' # showNat k @ pathStr p"
  by (simp add: pathStr_def)

lemma pathStr_head: "pathStr p = [] \<or> hd (pathStr p) = CHR ''-''"
  by (cases p) simp_all

lemma digits_prefix:
  "takeWhile (\<lambda>c. c \<noteq> CHR ''-'') (showNat k @ pathStr p) = showNat k"
proof -
  have "\<forall>c \<in> set (showNat k). c \<noteq> CHR ''-''" using showNat_no_dash[of k] by auto
  moreover have "takeWhile (\<lambda>c. c \<noteq> CHR ''-'') (pathStr p) = []"
    by (cases p) simp_all
  ultimately show ?thesis by (simp add: takeWhile_append2)
qed

lemma index_suffix_inj:
  assumes "showNat k @ pathStr p = showNat k' @ pathStr q"
  shows "k = k' \<and> pathStr p = pathStr q"
proof -
  from assms have "takeWhile (\<lambda>c. c \<noteq> CHR ''-'') (showNat k @ pathStr p) =
                   takeWhile (\<lambda>c. c \<noteq> CHR ''-'') (showNat k' @ pathStr q)" by simp
  then have "showNat k = showNat k'" by (simp add: digits_prefix)
  with assms showNat_inj show ?thesis by auto
qed

lemma pathStr_inj: "pathStr p = pathStr q \<Longrightarrow> p = q"
proof (induction p arbitrary: q)
  case Nil
  then show ?case by (cases q) simp_all
next
  case (Cons k p)
  then obtain k' q' where q: "q = k' # q'" by (cases q) simp_all
  with Cons.prems have "showNat k @ pathStr p = showNat k' @ pathStr q'" by simp
  from index_suffix_inj[OF this] Cons.IH q show ?case by simp
qed

lemma kids_addId: "kids (addId t path) = addIdChildren (kids t) path 0"
  by (cases t) (simp add: kids_def split: option.splits)

lemma node_id_addId [simp]: "node_id (addId t path) = Some path"
  by (cases t) simp

lemma length_addIdChildren [simp]: "length (addIdChildren ks path k) = length ks"
  by (induction ks arbitrary: k) simp_all

lemma nth_addIdChildren:
  "j < length ks \<Longrightarrow>
   addIdChildren ks path k ! j = addId (ks ! j) (path @ ''-'' @ showNat (k + j))"
proof (induction ks arbitrary: k j)
  case Nil
  then show ?case by simp
next
  case (Cons c ks)
  then show ?case by (cases j) simp_all
qed

lemma nodeAt_addId:
  "nodeAt p (addId t path) = map_option (\<lambda>n. addId n (path @ pathStr p)) (nodeAt p t)"
proof (induction p arbitrary: t path)
  case Nil
  then show ?case by simp
next
  case (Cons k p)
  then show ?case by (simp add: kids_addId nth_addIdChildren)
qed

lemma shapeOf_kids: "shapeOf t = Shape (map shapeOf (kids t))"
  by (cases t) (simp add: kids_def split: option.splits)

lemma nodeAt_same_shape:
  "shapeOf t' = shapeOf t \<Longrightarrow> (nodeAt p t' = None) = (nodeAt p t = None)"
proof (induction p arbitrary: t t')
  case Nil
  then show ?case by simp
next
  case (Cons k p)
  from Cons.prems have m: "map shapeOf (kids t') = map shapeOf (kids t)"
    by (simp add: shapeOf_kids[of t] shapeOf_kids[of t'])
  then have len: "length (kids t') = length (kids t)" by (rule map_eq_imp_length_eq)
  show ?case
  proof (cases "k < length (kids t)")
    case True
    with m len have "shapeOf (kids t' ! k) = shapeOf (kids t ! k)"
      by (metis nth_map)
    from Cons.IH[OF this] True len show ?thesis by simp
  next
    case False
    with len show ?thesis by simp
  qed
qed

text \<open>
  Claim C7.  The identifier of the node at a position of the identified tree is
  \<open>root\<close> followed by the indices of the position, each after a dash; so two nodes of
  the identified tree have the same identifier exactly when their positions are the
  same, and a tree of the same shape gets the same identifier at every position.
\<close>
theorem ids_by_position:
  "(nodeAt p (dataWithIds data) = Some m \<longrightarrow> node_id m = Some (''root'' @ pathStr p)) \<and>
   (nodeAt p (dataWithIds data) = Some m \<and> nodeAt q (dataWithIds data) = Some n \<longrightarrow>
      (node_id m = node_id n) = (p = q)) \<and>
   (shapeOf data' = shapeOf data \<and> nodeAt p (dataWithIds data) = Some m \<longrightarrow>
      (\<exists>m'. nodeAt p (dataWithIds data') = Some m' \<and> node_id m' = node_id m))"
proof -
  have pos: "node_id x = Some (''root'' @ pathStr r)" if "nodeAt r (dataWithIds d) = Some x" for r d x
    using that by (auto simp: dataWithIds_def nodeAt_addId)
  have iff: "(node_id m = node_id n) = (p = q)"
    if "nodeAt p (dataWithIds data) = Some m" "nodeAt q (dataWithIds data) = Some n"
    using pos[OF that(1)] pos[OF that(2)] that pathStr_inj[of p q] by auto
  have stable: "\<exists>m'. nodeAt p (dataWithIds data') = Some m' \<and> node_id m' = node_id m"
    if s: "shapeOf data' = shapeOf data" and m: "nodeAt p (dataWithIds data) = Some m"
  proof -
    from m have "nodeAt p data \<noteq> None" by (auto simp: dataWithIds_def nodeAt_addId)
    with nodeAt_same_shape[OF s, of p] have "nodeAt p data' \<noteq> None" by simp
    then obtain m' where m': "nodeAt p (dataWithIds data') = Some m'"
      by (auto simp: dataWithIds_def nodeAt_addId)
    from pos[OF m'] pos[OF m] m' show ?thesis by simp
  qed
  from pos iff stable show ?thesis by blast
qed

theorem ids_by_position_witness:
  "nodeAt [1] (dataWithIds twoLeaves) = Some (MindMapNode (Some ''root-1'') ''b'' None) \<and>
   nodeAt [0] (dataWithIds twoLeaves) = Some (MindMapNode (Some ''root-0'') ''a'' None) \<and>
   Some ''root-1'' = Some (''root'' @ pathStr [1]) \<and>
   (Some ''root-1'' = Some ''root-0'') = ([1::nat] = [0]) \<and>
   shapeOf (MindMapNode (Some ''x'') ''s'' (Some [MindMapNode None ''t'' (Some []), MindMapNode None ''u'' None])) =
     shapeOf twoLeaves \<and>
   map_option node_id (nodeAt [1] (dataWithIds
     (MindMapNode (Some ''x'') ''s'' (Some [MindMapNode None ''t'' (Some []), MindMapNode None ''u'' None])))) =
     Some (Some ''root-1'')"
proof -
  have a: "nodeAt [1] (dataWithIds twoLeaves) = Some (MindMapNode (Some ''root-1'') ''b'' None)"
    by (simp add: dataWithIds_def twoLeaves_def kids_def showNat.simps digitChar_def)
  have b: "nodeAt [0] (dataWithIds twoLeaves) = Some (MindMapNode (Some ''root-0'') ''a'' None)"
    by (simp add: dataWithIds_def twoLeaves_def kids_def showNat.simps digitChar_def)
  have c: "shapeOf (MindMapNode (Some ''x'') ''s'' (Some [MindMapNode None ''t'' (Some []), MindMapNode None ''u'' None])) =
     shapeOf twoLeaves"
    by (simp add: twoLeaves_def)
  have d: "map_option node_id (nodeAt [1] (dataWithIds
     (MindMapNode (Some ''x'') ''s'' (Some [MindMapNode None ''t'' (Some []), MindMapNode None ''u'' None])))) =
     Some (Some ''root-1'')"
    by (simp add: dataWithIds_def kids_def showNat.simps digitChar_def)
  have e: "pathStr [1] = ''-1''"
    by (simp add: showNat.simps digitChar_def)
  from ids_by_position[of "[1]" twoLeaves "MindMapNode (Some ''root-1'') ''b'' None"
      "[0]" "MindMapNode (Some ''root-0'') ''a'' None"
      "MindMapNode (Some ''x'') ''s'' (Some [MindMapNode None ''t'' (Some []), MindMapNode None ''u'' None])"]
    a b c d e
  show ?thesis by (simp add: showNat.simps digitChar_def del: nodeAt.simps)
qed

section \<open>Collapsing a visible node\<close>

lemma visible_unfold:
  "visible S t = t # (if has S (node_id t) then [] else concat (map (visible S) (kids t)))"
  by (cases t) (simp add: kids_def split: option.splits)

lemma visible_ne [simp]: "visible S t \<noteq> []"
  by (cases t) simp

lemma allNodes_unfold: "allNodes t = t # concat (map allNodes (kids t))"
  by (cases t) (simp add: kids_def split: option.splits)

lemma visible_cong:
  "(\<forall>n \<in> set (allNodes t). has S' (node_id n) = has S (node_id n)) \<Longrightarrow> visible S' t = visible S t"
proof (induction S t rule: visible.induct)
  case (1 S i l cs)
  from "1.prems" have i: "has S' i = has S i" by simp
  show ?case
  proof (cases "has S i")
    case True
    with i show ?thesis by simp
  next
    case False
    have "visible S' c = visible S c" if "cs = Some ks" "c \<in> set ks" for ks c
      using "1.IH"[OF False that] "1.prems" that by auto
    with False i show ?thesis by (auto split: option.splits cong: map_cong)
  qed
qed

lemma allNodes_nodeAt: "n \<in> set (allNodes t) \<Longrightarrow> \<exists>q. nodeAt q t = Some n"
proof (induction t arbitrary: n rule: allNodes.induct)
  case (1 i l cs)
  show ?case
  proof (cases "n = MindMapNode i l cs")
    case True
    then have "nodeAt [] (MindMapNode i l cs) = Some n" by simp
    then show ?thesis by blast
  next
    case False
    with "1.prems" obtain ks c where cs: "cs = Some ks" and c: "c \<in> set ks" and n: "n \<in> set (allNodes c)"
      by (auto split: option.splits)
    from "1.IH"[OF cs c n] obtain q where q: "nodeAt q c = Some n" by blast
    from c obtain k where k: "k < length ks" "ks ! k = c" by (auto simp: in_set_conv_nth)
    with q cs have "nodeAt (k # q) (MindMapNode i l cs) = Some n" by (simp add: kids_def)
    then show ?thesis by blast
  qed
qed

lemma ids_in_addId:
  assumes "n \<in> set (allNodes (addId t path))"
  shows "\<exists>q. node_id n = Some (path @ pathStr q)"
proof -
  from allNodes_nodeAt[OF assms] obtain q where "nodeAt q (addId t path) = Some n" by blast
  then have "node_id n = Some (path @ pathStr q)" by (auto simp: nodeAt_addId)
  then show ?thesis by blast
qed

lemma visibleAt_nodeAt: "visibleAt S p t = Some n \<Longrightarrow> nodeAt p t = Some n"
  by (induction p arbitrary: t) (auto split: if_splits)

lemma length_concat_change:
  assumes "k < length xs"
    and "\<And>j. j < length xs \<Longrightarrow> j \<noteq> k \<Longrightarrow> f (xs ! j) = g (xs ! j)"
    and "length (g (xs ! k)) = length (f (xs ! k)) + c"
  shows "length (concat (map g xs)) = length (concat (map f xs)) + c"
proof -
  have xs: "xs = take k xs @ xs ! k # drop (Suc k) xs"
    using assms(1) by (simp add: id_take_nth_drop)
  have a: "map g (take k xs) = map f (take k xs)"
    using assms(1,2) by (auto simp: list_eq_iff_nth_eq)
  have b: "map g (drop (Suc k) xs) = map f (drop (Suc k) xs)"
    using assms(1,2) by (auto simp: list_eq_iff_nth_eq)
  have "length (concat (map g xs)) =
        length (concat (map g (take k xs))) + length (g (xs ! k)) + length (concat (map g (drop (Suc k) xs)))"
    by (subst xs) simp
  also have "\<dots> = length (concat (map f (take k xs))) + (length (f (xs ! k)) + c) +
                   length (concat (map f (drop (Suc k) xs)))"
    by (simp add: a b assms(3))
  also have "\<dots> = length (concat (map f xs)) + c"
    by (subst (3) xs) simp
  finally show ?thesis .
qed

lemma collapse_visible:
  assumes "visibleAt S p (addId t path) = Some n" and "node_id n = Some v"
  shows "length (visible S (addId t path)) =
           length (visible (insert v S) (addId t path)) + length (tl (visible S n)) \<and>
         n \<in> set (visible (insert v S) (addId t path))"
  using assms
proof (induction p arbitrary: t path)
  case Nil
  then have n: "n = addId t path" and v: "v = path" by auto
  have "visible (insert v S) (addId t path) = [addId t path]"
    by (subst visible_unfold) (simp add: v has_def)
  with n show ?case by simp
next
  case (Cons k p)
  let ?t = "addId t path"
  let ?c = "kids ?t ! k"
  from Cons.prems(1) have nc: "\<not> has S (node_id ?t)" and k: "k < length (kids ?t)"
    and vis: "visibleAt S p ?c = Some n"
    by (auto split: if_splits)
  from k have kt: "k < length (kids t)" by (simp add: kids_addId)
  have c: "?c = addId (kids t ! k) (path @ ''-'' @ showNat k)"
    using kt by (simp add: kids_addId nth_addIdChildren)
  from visibleAt_nodeAt[OF Cons.prems(1)] Cons.prems(2)
  have v: "v = path @ pathStr (k # p)" by (auto simp: nodeAt_addId)
  then have "v \<noteq> path" by simp
  with nc have nc': "\<not> has (insert v S) (node_id ?t)" by (simp add: has_def)
  from Cons.IH[of "kids t ! k" "path @ ''-'' @ showNat k"] vis c Cons.prems(2)
  have ih: "length (visible S ?c) = length (visible (insert v S) ?c) + length (tl (visible S n))"
    and mem: "n \<in> set (visible (insert v S) ?c)" by simp_all
  have other: "visible (insert v S) (kids ?t ! j) = visible S (kids ?t ! j)"
    if j: "j < length (kids ?t)" "j \<noteq> k" for j
  proof (rule visible_cong, rule ballI)
    fix x assume x: "x \<in> set (allNodes (kids ?t ! j))"
    from j have cj: "kids ?t ! j = addId (kids t ! j) (path @ ''-'' @ showNat j)"
      by (simp add: kids_addId nth_addIdChildren)
    from ids_in_addId[OF x[unfolded cj]] obtain q
      where q: "node_id x = Some ((path @ ''-'' @ showNat j) @ pathStr q)" by blast
    have "(path @ ''-'' @ showNat j) @ pathStr q \<noteq> v"
    proof
      assume "(path @ ''-'' @ showNat j) @ pathStr q = v"
      with v have "showNat j @ pathStr q = showNat k @ pathStr p" by simp
      from index_suffix_inj[OF this] j(2) show False by simp
    qed
    with q show "has (insert v S) (node_id x) = has S (node_id x)" by (simp add: has_def)
  qed
  have len: "length (concat (map (visible S) (kids ?t))) =
             length (concat (map (visible (insert v S)) (kids ?t))) + length (tl (visible S n))"
    by (rule length_concat_change[OF k]) (simp_all add: other ih)
  have "length (visible S ?t) = Suc (length (concat (map (visible S) (kids ?t))))"
    using nc by (subst visible_unfold) simp
  moreover have "length (visible (insert v S) ?t) =
      Suc (length (concat (map (visible (insert v S)) (kids ?t))))"
    using nc' by (subst visible_unfold) simp
  moreover have "n \<in> set (visible (insert v S) ?t)"
    using nc' mem k by (subst visible_unfold) (auto intro!: bexI[of _ ?c])
  ultimately show ?case using len by simp
qed

lemma nodes_visible: "map ln_id (nodes t S) = map node_id (visible S t)"
  using flatten_visible_both[THEN conjunct1, rule_format, of S t 0 0 "tree t S"
      "snd (calculatePositions S t 0 0)"]
  by (simp add: nodes_def tree_def)

text \<open>
  Claim C3.  Let \<open>n\<close> be a visible node of the identified tree, \<open>v\<close> its identifier; its
  visible descendants are the visible nodes of its subtree but itself,
  \<open>tl (visible S n)\<close>.  Adding \<open>v\<close> to the collapse set shortens the emitted sequence by
  their number, and \<open>v\<close> still is the identifier of an emitted node.
\<close>
theorem collapse_shrinks:
  assumes "visibleAt S p (dataWithIds data) = Some n" and "node_id n = Some v"
  shows "length (nodes (dataWithIds data) S) =
           length (nodes (dataWithIds data) (insert v S)) + length (tl (visible S n)) \<and>
         Some v \<in> ln_id ` set (nodes (dataWithIds data) (insert v S))"
proof -
  from collapse_visible[OF assms[unfolded dataWithIds_def]]
  have len: "length (visible S (dataWithIds data)) =
           length (visible (insert v S) (dataWithIds data)) + length (tl (visible S n))"
    and mem: "n \<in> set (visible (insert v S) (dataWithIds data))"
    by (simp_all add: dataWithIds_def)
  have l: "length (nodes t X) = length (visible X t)" for t X
    using arg_cong[OF nodes_visible[of t X], of length] by simp
  have "ln_id ` set (nodes (dataWithIds data) (insert v S)) =
        node_id ` set (visible (insert v S) (dataWithIds data))"
    using arg_cong[OF nodes_visible[of "dataWithIds data" "insert v S"], of set] by simp
  with mem assms(2) have "Some v \<in> ln_id ` set (nodes (dataWithIds data) (insert v S))"
    by (metis imageI)
  with len l show ?thesis by simp
qed

theorem collapse_shrinks_witness:
  "visibleAt {} [0] (dataWithIds centringExample) = Some (kids (dataWithIds centringExample) ! 0) \<and>
   node_id (kids (dataWithIds centringExample) ! 0) = Some ''root-0'' \<and>
   length (tl (visible {} (kids (dataWithIds centringExample) ! 0))) = 3 \<and>
   length (nodes (dataWithIds centringExample) {}) = 6 \<and>
   length (nodes (dataWithIds centringExample) (insert ''root-0'' {})) = 3 \<and>
   Some ''root-0'' \<in> ln_id ` set (nodes (dataWithIds centringExample) (insert ''root-0'' {}))"
proof -
  have a: "visibleAt {} [0] (dataWithIds centringExample) = Some (kids (dataWithIds centringExample) ! 0)"
    by (simp add: has_def dataWithIds_def centringExample_def kids_def)
  have b: "node_id (kids (dataWithIds centringExample) ! 0) = Some ''root-0''"
    by (simp add: dataWithIds_def centringExample_def kids_def showNat.simps digitChar_def)
  have c: "length (tl (visible {} (kids (dataWithIds centringExample) ! 0))) = 3"
    by (simp add: has_def dataWithIds_def centringExample_def kids_def)
  have d: "length (nodes (dataWithIds centringExample) {}) = 6"
    by (simp add: eval_layout centringExample_def)
  from collapse_shrinks[OF a b] a b c d show ?thesis by simp
qed

end
